theory Spec2Isabelle
  imports Main "HOL-Library.Word" "HOL-Library.AList"
begin

section \<open>Package broker: messages, channels and outcomes\<close>

type_synonym byte = "8 word"
type_synonym chan = nat
type_synonym addr = nat
type_synonym time = int

text \<open>\<^verbatim>\<open>type Message struct { Event string; Data []byte }\<close>\<close>

record Message =
  Event :: string
  Data :: "byte list"

definition NewMessage :: "string \<Rightarrow> byte list \<Rightarrow> Message" where
  "NewMessage event data = \<lparr>Event = event, Data = data\<rparr>"

text \<open>
  A Go channel of \<^verbatim>\<open>*Message\<close> is identified by a number. Its state is whether it has
  been closed and the sequence of values sent on it so far. Each sent value carries the
  code site that sent it: \<open>Backlog\<close> for a send made by \<^verbatim>\<open>state.emit(ch)\<close>, \<open>Live\<close> for
  the send \<^verbatim>\<open>c <- msg\<close> of \<^verbatim>\<open>Broker.diff\<close>.
\<close>

datatype delivery = Backlog Message | Live Message

record Channel =
  closed :: bool
  received :: "delivery list"

type_synonym chans = "chan \<Rightarrow> Channel"

text \<open>
  A call either returns, panics (Go's run-time panics for closing a closed channel,
  sending on a closed channel, calling a method on a nil interface or pointer), or is
  parked on \<^verbatim>\<open>removeLock.Lock()\<close> because a subscribe goroutine holds the read side;
  \<open>Blocked\<close> carries the state in which the call is parked.
\<close>

datatype panic = CloseOfClosedChannel | SendOnClosedChannel | NilDereference

datatype 'a result = Done 'a | Panic panic | Blocked 'a

definition close_chan :: "chan \<Rightarrow> chans \<Rightarrow> chans result" where
  "close_chan ch cs =
     (if closed (cs ch) then Panic CloseOfClosedChannel
      else Done (cs(ch := (cs ch)\<lparr>closed := True\<rparr>)))"

definition send :: "chan \<Rightarrow> delivery \<Rightarrow> chans \<Rightarrow> chans result" where
  "send ch d cs =
     (if closed (cs ch) then Panic SendOnClosedChannel
      else Done (cs(ch := (cs ch)\<lparr>received := received (cs ch) @ [d]\<rparr>)))"

section \<open>The state store\<close>

text \<open>
  Modelled from the spec: the ring buffer behind the \<^verbatim>\<open>state\<close> interface
  (\<^verbatim>\<open>newRingBuffer\<close>, \<^verbatim>\<open>put\<close>, \<^verbatim>\<open>get\<close>, \<^verbatim>\<open>emit\<close>, \<^verbatim>\<open>waitTouch\<close>) is not among the source
  files; only the interface declaration and its callers are. The spec says: configured
  with capacity N; put appends and, if at capacity, evicts the oldest entry; get reads
  the latest message; emit writes all currently buffered messages, oldest first, to
  the channel; waitTouch blocks until at least one message has ever been stored.
\<close>

record RingBuffer =
  capacity :: nat
  items :: "Message list"
  touched :: bool

definition newRingBuffer :: "nat \<Rightarrow> RingBuffer" where
  "newRingBuffer sz = \<lparr>capacity = sz, items = [], touched = False\<rparr>"

definition put :: "RingBuffer \<Rightarrow> Message \<Rightarrow> RingBuffer" where
  "put rb m =
     rb\<lparr>items := (if capacity rb \<le> length (items rb) then tl (items rb) else items rb) @ [m],
        touched := True\<rparr>"


text \<open>\<open>emit\<close> gives the messages written to the channel, in the order written.\<close>

definition emit :: "RingBuffer \<Rightarrow> Message list" where
  "emit rb = items rb"

text \<open>\<open>waitTouch\<close> is \<open>True\<close> when the call returns and \<open>False\<close> while it blocks.\<close>

definition waitTouch :: "RingBuffer \<Rightarrow> bool" where
  "waitTouch rb = touched rb"

section \<open>Broker\<close>

text \<open>
  The \<^verbatim>\<open>Broker\<close> struct. \<open>state\<close> is \<open>None\<close> for a nil interface value. The Go map
  \<^verbatim>\<open>subscribers\<close> is an association list with unique keys, ranged over in list order
  (Go leaves the order open; the theorems hold for every order). \<open>removeLock\<close> is the
  number of goroutines holding the read side of \<^verbatim>\<open>removeLock\<close>. The embedded
  \<^verbatim>\<open>sync.RWMutex\<close> is not a field: every method below runs wholly under it, so each is
  one atomic step.
\<close>

record Broker =
  topic :: string
  state :: "RingBuffer option"
  subscribers :: "(chan \<times> bool) list"
  removeLock :: nat
  updated :: time

definition newBroker :: "string \<Rightarrow> time \<Rightarrow> Broker" where
  "newBroker tp now =
     \<lparr>topic = tp, state = None, subscribers = [], removeLock = 0, updated = now\<rparr>"

definition NewBufferedBroker :: "string \<Rightarrow> nat \<Rightarrow> time \<Rightarrow> Broker" where
  "NewBufferedBroker tp sz now = (newBroker tp now)\<lparr>state := Some (newRingBuffer sz)\<rparr>"

definition NewFullDiffBroker :: "string \<Rightarrow> time \<Rightarrow> Broker" where
  "NewFullDiffBroker tp now = (newBroker tp now)\<lparr>state := Some (newRingBuffer 1)\<rparr>"

definition activeSubscribers :: "Broker \<Rightarrow> (chan \<times> bool) list" where
  "activeSubscribers b = subscribers b"

definition setSubscriber :: "chan \<Rightarrow> bool \<Rightarrow> Broker \<Rightarrow> Broker" where
  "setSubscriber ch sentFull b = b\<lparr>subscribers := AList.update ch sentFull (subscribers b)\<rparr>"

text \<open>
  \<^verbatim>\<open>if _, ok := b.subscribers[ch]; ok { delete(b.subscribers, ch); close(ch) }\<close>
\<close>

definition Unsubscribe :: "chan \<Rightarrow> Broker \<times> chans \<Rightarrow> (Broker \<times> chans) result" where
  "Unsubscribe ch s =
     (case s of (b, cs) \<Rightarrow>
        if map_of (subscribers b) ch \<noteq> None then
          (case close_chan ch cs of
             Done cs' \<Rightarrow> Done (b\<lparr>subscribers := AList.delete ch (subscribers b)\<rparr>, cs')
           | Panic p \<Rightarrow> Panic p
           | Blocked cs' \<Rightarrow> Blocked (b, cs'))
        else Done (b, cs))"

text \<open>The loop of \<^verbatim>\<open>removeSubscribers\<close>: \<^verbatim>\<open>for ch := range subs { b.Unsubscribe(ch) }\<close>.\<close>

fun unsubscribeAll :: "chan list \<Rightarrow> Broker \<times> chans \<Rightarrow> (Broker \<times> chans) result" where
  "unsubscribeAll [] s = Done s"
| "unsubscribeAll (ch # rest) s =
     (case Unsubscribe ch s of
        Done s' \<Rightarrow> unsubscribeAll rest s'
      | Panic p \<Rightarrow> Panic p
      | Blocked s' \<Rightarrow> Blocked s')"

text \<open>
  \<^verbatim>\<open>removeSubscribers\<close>: the snapshot is taken first, then \<^verbatim>\<open>removeLock.Lock()\<close>, which
  cannot be acquired while a subscribe goroutine holds \<^verbatim>\<open>removeLock.RLock()\<close>.
\<close>

definition removeSubscribers :: "Broker \<times> chans \<Rightarrow> (Broker \<times> chans) result" where
  "removeSubscribers s =
     (case s of (b, cs) \<Rightarrow>
        let subs = activeSubscribers b in
        if removeLock b \<noteq> 0 then Blocked (b, cs)
        else unsubscribeAll (map fst subs) (b, cs))"

text \<open>\<^verbatim>\<open>full\<close>: \<^verbatim>\<open>b.state.put(msg); b.updated = time.Now()\<close>, \<open>now\<close> being the clock reading.\<close>

definition full :: "Message \<Rightarrow> time \<Rightarrow> Broker \<Rightarrow> Broker result" where
  "full msg now b =
     (case state b of
        None \<Rightarrow> Panic NilDereference
      | Some rb \<Rightarrow> Done (b\<lparr>state := Some (put rb msg), updated := now\<rparr>))"

text \<open>\<^verbatim>\<open>diff\<close>: \<^verbatim>\<open>for c, sentFull := range b.subscribers { if sentFull { c <- msg } }\<close>\<close>

fun diffLoop :: "Message \<Rightarrow> (chan \<times> bool) list \<Rightarrow> chans \<Rightarrow> chans result" where
  "diffLoop msg [] cs = Done cs"
| "diffLoop msg ((c, sentFull) # rest) cs =
     (if sentFull then
        (case send c (Live msg) cs of
           Done cs' \<Rightarrow> diffLoop msg rest cs'
         | Panic p \<Rightarrow> Panic p
         | Blocked cs' \<Rightarrow> Blocked cs')
      else diffLoop msg rest cs)"

definition diff :: "Message \<Rightarrow> Broker \<times> chans \<Rightarrow> (Broker \<times> chans) result" where
  "diff msg s =
     (case s of (b, cs) \<Rightarrow>
        (case diffLoop msg (subscribers b) cs of
           Done cs' \<Rightarrow> Done (b, cs')
         | Panic p \<Rightarrow> Panic p
         | Blocked cs' \<Rightarrow> Blocked (b, cs')))"

text \<open>
  \<^verbatim>\<open>expired\<close>: \<^verbatim>\<open>b.updated.Before(time.Now().Add(-ttl))\<close>. Instants and durations are
  integers (nanoseconds).
\<close>

definition expired :: "int \<Rightarrow> time \<Rightarrow> Broker \<Rightarrow> bool" where
  "expired ttl now b = (updated b < now + (- ttl))"

section \<open>Registry\<close>

text \<open>
  The package variables \<^verbatim>\<open>brokers\<close>, \<^verbatim>\<open>ttl\<close> and \<^verbatim>\<open>defaultSize\<close>, with the store they
  point into: \<^verbatim>\<open>brokers\<close> maps a topic to a \<^verbatim>\<open>*Broker\<close>, an address in \<open>heap\<close>;
  \<open>nextAddr\<close> is the address the next allocation returns; \<open>channels\<close> holds the state
  of every channel. The Go map is an association list with unique keys, ranged over in
  list order.
\<close>

record World =
  brokers :: "(string \<times> addr) list"
  heap :: "addr \<Rightarrow> Broker option"
  nextAddr :: addr
  channels :: chans
  ttl :: int
  defaultSize :: nat

text \<open>The package after \<^verbatim>\<open>init()\<close>: \<open>ttl\<close> is one hour, \<open>defaultSize\<close> is 100.\<close>

definition initWorld :: World where
  "initWorld =
     \<lparr>brokers = [], heap = (\<lambda>_. None), nextAddr = 0,
      channels = (\<lambda>_. \<lparr>closed = False, received = []\<rparr>),
      ttl = 3600000000000, defaultSize = 100\<rparr>"

definition SetTTL :: "int \<Rightarrow> World \<Rightarrow> World" where
  "SetTTL newTTL w = w\<lparr>ttl := newTTL\<rparr>"

text \<open>\<^verbatim>\<open>FindBroker\<close>: \<^verbatim>\<open>b, ok := brokers[topic]\<close>; \<open>None\<close> is \<^verbatim>\<open>ok == false\<close>.\<close>

definition FindBroker :: "string \<Rightarrow> World \<Rightarrow> addr option" where
  "FindBroker tp w = map_of (brokers w) tp"

text \<open>
  \<^verbatim>\<open>createFullDiffBroker\<close>: \<^verbatim>\<open>b := NewFullDiffBroker(topic); brokers[topic] = b; return b\<close>.
  \<open>now\<close> is the clock reading of \<^verbatim>\<open>newBroker\<close>.
\<close>

definition createFullDiffBroker :: "string \<Rightarrow> time \<Rightarrow> World \<Rightarrow> addr \<times> World" where
  "createFullDiffBroker tp now w =
     (let b = nextAddr w in
      (b, w\<lparr>heap := (heap w)(b \<mapsto> NewFullDiffBroker tp now),
            nextAddr := Suc b,
            brokers := AList.update tp b (brokers w)\<rparr>))"

definition createBufferedBroker :: "string \<Rightarrow> nat \<Rightarrow> time \<Rightarrow> World \<Rightarrow> addr \<times> World" where
  "createBufferedBroker tp sz now w =
     (let b = nextAddr w in
      (b, w\<lparr>heap := (heap w)(b \<mapsto> NewBufferedBroker tp sz now),
            nextAddr := Suc b,
            brokers := AList.update tp b (brokers w)\<rparr>))"

definition GetFullDiffBroker :: "string \<Rightarrow> time \<Rightarrow> World \<Rightarrow> addr \<times> World" where
  "GetFullDiffBroker tp now w =
     (case FindBroker tp w of
        None \<Rightarrow> createFullDiffBroker tp now w
      | Some b \<Rightarrow> (b, w))"

definition GetBufferedBroker :: "string \<Rightarrow> time \<Rightarrow> World \<Rightarrow> addr \<times> World" where
  "GetBufferedBroker tp now w =
     (case FindBroker tp w of
        None \<Rightarrow> createBufferedBroker tp (defaultSize w) now w
      | Some b \<Rightarrow> (b, w))"

text \<open>A method called through the pointer \<open>a\<close>; a nil or dangling pointer panics.\<close>

definition onBroker ::
  "addr \<Rightarrow> (Broker \<times> chans \<Rightarrow> (Broker \<times> chans) result) \<Rightarrow> World \<Rightarrow> World result" where
  "onBroker a f w =
     (case heap w a of
        None \<Rightarrow> Panic NilDereference
      | Some b \<Rightarrow>
          (case f (b, channels w) of
             Done (b', cs') \<Rightarrow> Done (w\<lparr>heap := (heap w)(a \<mapsto> b'), channels := cs'\<rparr>)
           | Panic p \<Rightarrow> Panic p
           | Blocked (b', cs') \<Rightarrow> Blocked (w\<lparr>heap := (heap w)(a \<mapsto> b'), channels := cs'\<rparr>)))"

definition fullOn :: "Message \<Rightarrow> time \<Rightarrow> Broker \<times> chans \<Rightarrow> (Broker \<times> chans) result" where
  "fullOn msg now s =
     (case s of (b, cs) \<Rightarrow>
        (case full msg now b of
           Done b' \<Rightarrow> Done (b', cs)
         | Panic p \<Rightarrow> Panic p
         | Blocked b' \<Rightarrow> Blocked (b', cs)))"

text \<open>
  The package-level publish functions. \<open>now\<close> is the clock reading of the call (the
  readings of \<^verbatim>\<open>newBroker\<close> and of \<^verbatim>\<open>full\<close> within one call are taken to be the same).
\<close>

definition Full :: "string \<Rightarrow> string \<Rightarrow> byte list \<Rightarrow> time \<Rightarrow> World \<Rightarrow> World result" where
  "Full tp event data now w =
     (let msg = NewMessage event data in
      case GetFullDiffBroker tp now w of (b, w1) \<Rightarrow> onBroker b (fullOn msg now) w1)"

definition Diff :: "string \<Rightarrow> string \<Rightarrow> byte list \<Rightarrow> time \<Rightarrow> World \<Rightarrow> World result" where
  "Diff tp event data now w =
     (let msg = NewMessage event data in
      case GetFullDiffBroker tp now w of (b, w1) \<Rightarrow> onBroker b (diff msg) w1)"

definition Stream :: "string \<Rightarrow> string \<Rightarrow> byte list \<Rightarrow> time \<Rightarrow> World \<Rightarrow> World result" where
  "Stream tp event data now w =
     (let msg = NewMessage event data in
      case GetBufferedBroker tp now w of (b, w1) \<Rightarrow>
        (case onBroker b (fullOn msg now) w1 of
           Done w2 \<Rightarrow> onBroker b (diff msg) w2
         | Panic p \<Rightarrow> Panic p
         | Blocked w2 \<Rightarrow> Blocked w2))"

text \<open>
  \<^verbatim>\<open>CleanUpBrokers\<close>: \<^verbatim>\<open>for topic, b := range brokers { if b.expired() { delete(brokers, topic);
  b.removeSubscribers() } }\<close>. \<open>clock tp\<close> is the clock reading of the call \<^verbatim>\<open>b.expired()\<close>
  made for topic \<open>tp\<close>.
\<close>

fun sweep :: "(string \<times> addr) list \<Rightarrow> (string \<Rightarrow> time) \<Rightarrow> World \<Rightarrow> World result" where
  "sweep [] clock w = Done w"
| "sweep ((tp, a) # rest) clock w =
     (case heap w a of
        None \<Rightarrow> Panic NilDereference
      | Some b \<Rightarrow>
          if expired (ttl w) (clock tp) b then
            (case onBroker a removeSubscribers (w\<lparr>brokers := AList.delete tp (brokers w)\<rparr>) of
               Done w' \<Rightarrow> sweep rest clock w'
             | Panic p \<Rightarrow> Panic p
             | Blocked w' \<Rightarrow> Blocked w')
          else sweep rest clock w)"

definition CleanUpBrokers :: "(string \<Rightarrow> time) \<Rightarrow> World \<Rightarrow> World result" where
  "CleanUpBrokers clock w = sweep (brokers w) clock w"

section \<open>One broker with its goroutines\<close>

text \<open>
  The goroutine that \<^verbatim>\<open>Subscribe\<close> starts for a channel runs
  \<^verbatim>\<open>removeLock.RLock(); state.waitTouch(); state.emit(ch); setSubscriber(ch, true);
  removeLock.RUnlock()\<close>. Its position is a \<open>phase\<close>: \<open>Spawned\<close> before \<^verbatim>\<open>RLock\<close>,
  \<open>Waiting\<close> inside \<^verbatim>\<open>waitTouch\<close>, \<open>Emitting ms\<close> inside \<^verbatim>\<open>emit\<close> with \<open>ms\<close> still to
  be sent, \<open>Finished\<close> after it has returned.
\<close>

datatype phase = Spawned | Waiting | Emitting "Message list" | Finished

text \<open>
  A call of \<^verbatim>\<open>removeSubscribers\<close> in progress: \<open>Pending snap\<close> after the snapshot and
  before \<^verbatim>\<open>removeLock.Lock()\<close> has been acquired, \<open>Holding rest\<close> while it holds the
  lock with the channels \<open>rest\<close> of the snapshot still to be unsubscribed.
\<close>

datatype remover = Idle | Pending "chan list" | Holding "chan list"

record Sys =
  brk :: Broker
  chs :: chans
  tasks :: "chan \<Rightarrow> phase option"
  nextChan :: chan
  removing :: remover
  crashed :: "panic option"

definition initSys :: "Broker \<Rightarrow> Sys" where
  "initSys b =
     \<lparr>brk = b, chs = (\<lambda>_. \<lparr>closed = False, received = []\<rparr>), tasks = (\<lambda>_. None),
      nextChan = 0, removing = Idle, crashed = None\<rparr>"

text \<open>
  \<^verbatim>\<open>Subscribe\<close>: \<^verbatim>\<open>ch := make(chan *Message)\<close>, the goroutine is started when
  \<^verbatim>\<open>b.state != nil\<close>, and \<open>ch\<close> is returned.
\<close>

definition Subscribe :: "Sys \<Rightarrow> chan \<times> Sys" where
  "Subscribe s =
     (let ch = nextChan s in
      (ch, s\<lparr>nextChan := Suc ch,
             tasks := (if state (brk s) \<noteq> None then (tasks s)(ch \<mapsto> Spawned) else tasks s)\<rparr>))"

text \<open>
  One move of the goroutine of channel \<open>ch\<close>. A goroutine that cannot move (no such
  goroutine, \<^verbatim>\<open>RLock\<close> while the write side is held, \<^verbatim>\<open>waitTouch\<close> before the first
  write) leaves the state as it is.
\<close>

definition subscribeStep :: "chan \<Rightarrow> Sys \<Rightarrow> Sys" where
  "subscribeStep ch s =
     (case tasks s ch of
        None \<Rightarrow> s
      | Some Spawned \<Rightarrow>
          (case removing s of
             Holding rest \<Rightarrow> s
           | _ \<Rightarrow> s\<lparr>brk := (brk s)\<lparr>removeLock := Suc (removeLock (brk s))\<rparr>,
                    tasks := (tasks s)(ch \<mapsto> Waiting)\<rparr>)
      | Some Waiting \<Rightarrow>
          (case state (brk s) of
             None \<Rightarrow> s\<lparr>crashed := Some NilDereference\<rparr>
           | Some rb \<Rightarrow>
               if waitTouch rb then s\<lparr>tasks := (tasks s)(ch \<mapsto> Emitting (emit rb))\<rparr> else s)
      | Some (Emitting []) \<Rightarrow>
          s\<lparr>brk := (setSubscriber ch True (brk s))\<lparr>removeLock := removeLock (brk s) - 1\<rparr>,
            tasks := (tasks s)(ch \<mapsto> Finished)\<rparr>
      | Some (Emitting (m # ms)) \<Rightarrow>
          (case send ch (Backlog m) (chs s) of
             Done cs' \<Rightarrow> s\<lparr>chs := cs', tasks := (tasks s)(ch \<mapsto> Emitting ms)\<rparr>
           | Panic p \<Rightarrow> s\<lparr>crashed := Some p\<rparr>
           | Blocked cs' \<Rightarrow> s)
      | Some Finished \<Rightarrow> s)"

text \<open>One move of \<^verbatim>\<open>removeSubscribers\<close>.\<close>

definition removeStep :: "Sys \<Rightarrow> Sys" where
  "removeStep s =
     (case removing s of
        Idle \<Rightarrow> s\<lparr>removing := Pending (map fst (activeSubscribers (brk s)))\<rparr>
      | Pending snap \<Rightarrow> if removeLock (brk s) = 0 then s\<lparr>removing := Holding snap\<rparr> else s
      | Holding [] \<Rightarrow> s\<lparr>removing := Idle\<rparr>
      | Holding (ch # rest) \<Rightarrow>
          (case Unsubscribe ch (brk s, chs s) of
             Done (b', cs') \<Rightarrow> s\<lparr>brk := b', chs := cs', removing := Holding rest\<rparr>
           | Panic p \<Rightarrow> s\<lparr>crashed := Some p\<rparr>
           | Blocked x \<Rightarrow> s))"

text \<open>
  What can happen next to a broker: a call of one of its methods, or a move of one of
  its goroutines. A schedule is a list of such actions; a panic stops the program.
\<close>

datatype action =
    ASubscribe
  | AStep chan
  | AFull Message time
  | ADiff Message
  | AUnsubscribe chan
  | ARemove

definition absorb :: "Sys \<Rightarrow> (Broker \<times> chans) result \<Rightarrow> Sys" where
  "absorb s r =
     (case r of
        Done (b', cs') \<Rightarrow> s\<lparr>brk := b', chs := cs'\<rparr>
      | Panic p \<Rightarrow> s\<lparr>crashed := Some p\<rparr>
      | Blocked x \<Rightarrow> s)"

fun exec :: "action \<Rightarrow> Sys \<Rightarrow> Sys" where
  "exec a s =
     (if crashed s \<noteq> None then s
      else case a of
        ASubscribe \<Rightarrow> snd (Subscribe s)
      | AStep ch \<Rightarrow> subscribeStep ch s
      | AFull msg now \<Rightarrow> absorb s (fullOn msg now (brk s, chs s))
      | ADiff msg \<Rightarrow> absorb s (diff msg (brk s, chs s))
      | AUnsubscribe ch \<Rightarrow> absorb s (Unsubscribe ch (brk s, chs s))
      | ARemove \<Rightarrow> removeStep s)"

fun run :: "action list \<Rightarrow> Sys \<Rightarrow> Sys" where
  "run [] s = s"
| "run (a # as) s = run as (exec a s)"

text \<open>Whether a sequence of sends has every backlog message before every diff.\<close>

fun isBacklog :: "delivery \<Rightarrow> bool" where
  "isBacklog (Backlog m) = True"
| "isBacklog (Live m) = False"

definition backlogFirst :: "delivery list \<Rightarrow> bool" where
  "backlogFirst ds = list_all (\<lambda>d. \<not> isBacklog d) (dropWhile isBacklog ds)"

definition handshaking :: "Sys \<Rightarrow> chan \<Rightarrow> bool" where
  "handshaking s ch =
     (case tasks s ch of
        None \<Rightarrow> False
      | Some Finished \<Rightarrow> False
      | Some ph \<Rightarrow> True)"

fun shape :: "phase option \<Rightarrow> delivery list \<Rightarrow> bool" where
  "shape None ds = (ds = [])"
| "shape (Some Spawned) ds = (ds = [])"
| "shape (Some Waiting) ds = (ds = [])"
| "shape (Some (Emitting ms)) ds = list_all isBacklog ds"
| "shape (Some Finished) ds = backlogFirst ds"

definition inv :: "Sys \<Rightarrow> bool" where
  "inv s =
     (state (brk s) \<noteq> None \<and> crashed s = None
      \<and> distinct (map fst (subscribers (brk s)))
      \<and> (\<forall>p \<in> set (subscribers (brk s)).
             snd p \<and> tasks s (fst p) = Some Finished \<and> \<not> closed (chs s (fst p)))
      \<and> (\<forall>c. tasks s c \<noteq> None \<longrightarrow> c < nextChan s)
      \<and> (\<forall>c. closed (chs s c) \<longrightarrow> tasks s c = Some Finished)
      \<and> (\<forall>c. shape (tasks s c) (received (chs s c))))"

section \<open>The window kept by the state store\<close>

lemma put_keeps_capacity [simp]: "capacity (put rb m) = capacity rb"
  by (simp add: put_def)



lemma get_create [simp]:
  "FindBroker tp (snd (createFullDiffBroker tp now w)) = Some (nextAddr w)"
  "FindBroker tp (snd (createBufferedBroker tp sz now w)) = Some (nextAddr w)"
  by (simp_all add: FindBroker_def createFullDiffBroker_def createBufferedBroker_def Let_def update_conv')

section \<open>An invariant of every schedule\<close>

lemma backlogFirst_all: "list_all isBacklog ds \<Longrightarrow> backlogFirst ds"
  by (induction ds) (auto simp: backlogFirst_def)

lemma dropWhile_backlog_live:
  "dropWhile isBacklog (ds @ replicate n (Live m)) = dropWhile isBacklog ds @ replicate n (Live m)"
proof (induction ds)
  case Nil
  show ?case by (cases n) simp_all
next
  case (Cons d ds)
  then show ?case by simp
qed

lemma list_all_live: "list_all (\<lambda>d. \<not> isBacklog d) (replicate n (Live m))"
  by (induction n) simp_all

lemma backlogFirst_live: "backlogFirst ds \<Longrightarrow> backlogFirst (ds @ replicate n (Live m))"
  by (simp add: backlogFirst_def dropWhile_backlog_live list_all_live)

lemma inv_init: "inv (initSys (NewBufferedBroker tp sz now))"
  by (simp add: inv_def initSys_def NewBufferedBroker_def newBroker_def)

lemma invD:
  assumes "inv s"
  shows "state (brk s) \<noteq> None" "crashed s = None" "distinct (map fst (subscribers (brk s)))"
    "\<And>p. p \<in> set (subscribers (brk s)) \<Longrightarrow>
       snd p \<and> tasks s (fst p) = Some Finished \<and> \<not> closed (chs s (fst p))"
    "\<And>c. tasks s c \<noteq> None \<Longrightarrow> c < nextChan s"
    "\<And>c. closed (chs s c) \<Longrightarrow> tasks s c = Some Finished"
    "\<And>c. shape (tasks s c) (received (chs s c))"
  using assms by (simp_all add: inv_def)

lemma invI:
  assumes "state (brk s) \<noteq> None" "crashed s = None" "distinct (map fst (subscribers (brk s)))"
    "\<And>p. p \<in> set (subscribers (brk s)) \<Longrightarrow>
       snd p \<and> tasks s (fst p) = Some Finished \<and> \<not> closed (chs s (fst p))"
    "\<And>c. tasks s c \<noteq> None \<Longrightarrow> c < nextChan s"
    "\<And>c. closed (chs s c) \<Longrightarrow> tasks s c = Some Finished"
    "\<And>c. shape (tasks s c) (received (chs s c))"
  shows "inv s"
  using assms by (simp add: inv_def)

lemma inv_fresh:
  assumes "inv s"
  shows "tasks s (nextChan s) = None" "\<not> closed (chs s (nextChan s))"
    "received (chs s (nextChan s)) = []"
proof -
  show t: "tasks s (nextChan s) = None"
  proof (cases "tasks s (nextChan s)")
    case (Some ph)
    then have "nextChan s < nextChan s" using invD(5) [OF assms, of "nextChan s"] by simp
    then show ?thesis by simp
  qed simp
  show "\<not> closed (chs s (nextChan s))"
  proof
    assume "closed (chs s (nextChan s))"
    from invD(6) [OF assms this] t show False by simp
  qed
  show "received (chs s (nextChan s)) = []"
    using invD(7) [OF assms, of "nextChan s"] by (simp add: t)
qed

lemma inv_Subscribe: "inv s \<Longrightarrow> inv (snd (Subscribe s))"
proof -
  assume i: "inv s"
  note f = inv_fresh [OF i]
  show ?thesis
  proof (rule invI)
    fix p assume "p \<in> set (subscribers (brk (snd (Subscribe s))))"
    then have m: "p \<in> set (subscribers (brk s))" by (simp add: Subscribe_def Let_def)
    from invD(4) [OF i m] f(1)
    show "snd p \<and> tasks (snd (Subscribe s)) (fst p) = Some Finished
        \<and> \<not> closed (chs (snd (Subscribe s)) (fst p))"
      by (auto simp: Subscribe_def Let_def)
  next
    fix c assume "tasks (snd (Subscribe s)) c \<noteq> None"
    then show "c < nextChan (snd (Subscribe s))"
      using invD(5) [OF i, of c] by (auto simp: Subscribe_def Let_def less_Suc_eq split: if_splits)
  next
    fix c assume "closed (chs (snd (Subscribe s)) c)"
    then show "tasks (snd (Subscribe s)) c = Some Finished"
      using invD(6) [OF i, of c] f by (auto simp: Subscribe_def Let_def)
  next
    fix c show "shape (tasks (snd (Subscribe s)) c) (received (chs (snd (Subscribe s)) c))"
      using invD(7) [OF i, of c] f by (auto simp: Subscribe_def Let_def)
  qed (use invD(1,2,3) [OF i] in \<open>simp_all add: Subscribe_def Let_def\<close>)
qed

lemma set_update_cases: "p \<in> set (AList.update k v al) \<Longrightarrow> p = (k, v) \<or> p \<in> set al"
  by (induction al) (auto split: if_splits)

lemma set_delete_sub: "p \<in> set (AList.delete k al) \<Longrightarrow> p \<in> set al \<and> fst p \<noteq> k"
  by (induction al) (auto split: if_splits)

text \<open>A change of one goroutine's phase and of its channel's contents.\<close>

lemma inv_task_update:
  assumes i: "inv s"
    and t: "tasks s ch = Some ph" "ph \<noteq> Finished"
    and b': "state b' = state (brk s)"
    and subs: "subscribers b' = subscribers (brk s) \<and> ph' \<noteq> Finished
             \<or> subscribers b' = AList.update ch True (subscribers (brk s)) \<and> ph' = Finished"
    and sh: "shape (Some ph') ds"
  shows "inv (s\<lparr>brk := b', chs := (chs s)(ch := (chs s ch)\<lparr>received := ds\<rparr>),
                tasks := (tasks s)(ch \<mapsto> ph')\<rparr>)" (is "inv ?s'")
proof (rule invI)
  have opn: "\<not> closed (chs s ch)" using invD(6) [OF i, of ch] t by auto
  have notsub: "p \<in> set (subscribers (brk s)) \<Longrightarrow> fst p \<noteq> ch" for p
    using invD(4) [OF i, of p] t by auto
  show "state (brk ?s') \<noteq> None" using invD(1) [OF i] b' by simp
  show "crashed ?s' = None" using invD(2) [OF i] by simp
  show "distinct (map fst (subscribers (brk ?s')))"
    using invD(3) [OF i] subs by (auto simp: distinct_update)
  show "snd p \<and> tasks ?s' (fst p) = Some Finished \<and> \<not> closed (chs ?s' (fst p))"
    if "p \<in> set (subscribers (brk ?s'))" for p
  proof -
    from that subs have "p = (ch, True) \<and> ph' = Finished \<or> p \<in> set (subscribers (brk s))"
      using set_update_cases [of p ch True "subscribers (brk s)"] by auto
    then show ?thesis
    proof
      assume "p = (ch, True) \<and> ph' = Finished"
      then show ?thesis using opn by simp
    next
      assume m: "p \<in> set (subscribers (brk s))"
      from invD(4) [OF i m] notsub [OF m] show ?thesis by simp
    qed
  qed
  show "c < nextChan ?s'" if "tasks ?s' c \<noteq> None" for c
    using that invD(5) [OF i, of c] t by (auto split: if_splits)
  show "tasks ?s' c = Some Finished" if "closed (chs ?s' c)" for c
    using that invD(6) [OF i, of c] opn by (auto split: if_splits)
  show "shape (tasks ?s' c) (received (chs ?s' c))" for c
    using invD(7) [OF i, of c] sh by auto
qed

lemma inv_step: "inv s \<Longrightarrow> inv (subscribeStep ch s)"
proof -
  assume i: "inv s"
  show ?thesis
  proof (cases "tasks s ch")
    case None
    then show ?thesis using i by (simp add: subscribeStep_def)
  next
    case (Some ph)
    note sh = invD(7) [OF i, of ch]
    have same: "s\<lparr>chs := (chs s)(ch := (chs s ch)\<lparr>received := received (chs s ch)\<rparr>)\<rparr> = s"
      by simp
    show ?thesis
    proof (cases ph)
      case Spawned
      have "inv (s\<lparr>brk := (brk s)\<lparr>removeLock := Suc (removeLock (brk s))\<rparr>,
                   chs := (chs s)(ch := (chs s ch)\<lparr>received := received (chs s ch)\<rparr>),
                   tasks := (tasks s)(ch \<mapsto> Waiting)\<rparr>)"
        using sh Some Spawned
        by (intro inv_task_update [OF i]) auto
      then show ?thesis using i Some Spawned
        by (cases "removing s") (simp_all add: subscribeStep_def)
    next
      case Waiting
      obtain rb where rb: "state (brk s) = Some rb" using invD(1) [OF i] by auto
      have "inv (s\<lparr>brk := brk s,
                   chs := (chs s)(ch := (chs s ch)\<lparr>received := received (chs s ch)\<rparr>),
                   tasks := (tasks s)(ch \<mapsto> Emitting (emit rb))\<rparr>)"
        using sh Some Waiting
        by (intro inv_task_update [OF i]) auto
      then show ?thesis using i Some Waiting rb
        by (simp add: subscribeStep_def)
    next
      case (Emitting ms)
      have opn: "\<not> closed (chs s ch)" using invD(6) [OF i, of ch] Some Emitting by auto
      have shb: "list_all isBacklog (received (chs s ch))" using sh Some Emitting by simp
      show ?thesis
      proof (cases ms)
        case Nil
        have "inv (s\<lparr>brk := (setSubscriber ch True (brk s))\<lparr>removeLock := removeLock (brk s) - 1\<rparr>,
                     chs := (chs s)(ch := (chs s ch)\<lparr>received := received (chs s ch)\<rparr>),
                     tasks := (tasks s)(ch \<mapsto> Finished)\<rparr>)"
          using Some Emitting backlogFirst_all [OF shb]
          by (intro inv_task_update [OF i])
             (auto simp: setSubscriber_def)
        then show ?thesis using Some Emitting Nil by (simp add: subscribeStep_def)
      next
        case (Cons m ms')
        have "inv (s\<lparr>brk := brk s,
                     chs := (chs s)(ch := (chs s ch)\<lparr>received := received (chs s ch) @ [Backlog m]\<rparr>),
                     tasks := (tasks s)(ch \<mapsto> Emitting ms')\<rparr>)"
          using Some Emitting shb
          by (intro inv_task_update [OF i]) auto
        then show ?thesis using Some Emitting Cons opn
          by (simp add: subscribeStep_def send_def)
      qed
    next
      case Finished
      then show ?thesis using i Some by (simp add: subscribeStep_def)
    qed
  qed
qed

lemma inv_frame:
  assumes i: "inv s"
    and "state (brk s') \<noteq> None" "crashed s' = None"
    and "subscribers (brk s') = subscribers (brk s)" "chs s' = chs s" "tasks s' = tasks s"
    and "nextChan s' = nextChan s"
  shows "inv s'"
proof (rule invI)
  show "snd p \<and> tasks s' (fst p) = Some Finished \<and> \<not> closed (chs s' (fst p))"
    if "p \<in> set (subscribers (brk s'))" for p
    using that invD(4) [OF i, of p] assms by simp
  show "c < nextChan s'" if "tasks s' c \<noteq> None" for c
    using that invD(5) [OF i, of c] assms by simp
  show "tasks s' c = Some Finished" if "closed (chs s' c)" for c
    using that invD(6) [OF i, of c] assms by simp
  show "shape (tasks s' c) (received (chs s' c))" for c
    using invD(7) [OF i, of c] assms by simp
qed (use assms invD(3) [OF i] in simp_all)

lemma diffLoop_effect:
  "\<forall>p\<in>set subs. \<not> closed (cs (fst p)) \<Longrightarrow>
   \<exists>cs'. diffLoop msg subs cs = Done cs'
     \<and> (\<forall>c. closed (cs' c) = closed (cs c)
            \<and> (\<exists>n. received (cs' c) = received (cs c) @ replicate n (Live msg)
                   \<and> ((c, True) \<notin> set subs \<longrightarrow> n = 0)))"
proof (induction subs arbitrary: cs)
  case Nil
  then show ?case by simp
next
  case (Cons x subs)
  obtain c0 f0 where x: "x = (c0, f0)" by (cases x)
  show ?case
  proof (cases f0)
    case False
    from Cons.IH [of cs] Cons.prems obtain cs' where
      d: "diffLoop msg subs cs = Done cs'" and
      e: "\<And>c. closed (cs' c) = closed (cs c)
            \<and> (\<exists>n. received (cs' c) = received (cs c) @ replicate n (Live msg)
                   \<and> ((c, True) \<notin> set subs \<longrightarrow> n = 0))"
      by auto
    show ?thesis using d e False by (auto simp: x)
  next
    case True
    define cs1 where "cs1 = cs(c0 := (cs c0)\<lparr>received := received (cs c0) @ [Live msg]\<rparr>)"
    have o: "\<forall>p\<in>set subs. \<not> closed (cs1 (fst p))" using Cons.prems by (auto simp: cs1_def x)
    from Cons.IH [OF o] obtain cs' where
      d: "diffLoop msg subs cs1 = Done cs'" and
      e: "\<And>c. closed (cs' c) = closed (cs1 c)
            \<and> (\<exists>n. received (cs' c) = received (cs1 c) @ replicate n (Live msg)
                   \<and> ((c, True) \<notin> set subs \<longrightarrow> n = 0))"
      by auto
    have s: "diffLoop msg (x # subs) cs = Done cs'"
      using d True Cons.prems by (simp add: x send_def cs1_def)
    have "closed (cs' c) = closed (cs c)
            \<and> (\<exists>n. received (cs' c) = received (cs c) @ replicate n (Live msg)
                   \<and> ((c, True) \<notin> set (x # subs) \<longrightarrow> n = 0))" for c
    proof (cases "c = c0")
      case False
      then show ?thesis using e [of c] by (simp add: cs1_def x)
    next
      case c: True
      from e [of c0] obtain n where
        n: "received (cs' c0) = received (cs1 c0) @ replicate n (Live msg)"
        and cl: "closed (cs' c0) = closed (cs1 c0)" by auto
      have "received (cs' c0) = received (cs c0) @ replicate (Suc n) (Live msg)"
        using n by (simp add: cs1_def)
      then have "\<exists>k. received (cs' c0) = received (cs c0) @ replicate k (Live msg)" ..
      moreover have "closed (cs' c0) = closed (cs c0)" using cl by (simp add: cs1_def)
      moreover have "(c0, True) \<in> set (x # subs)" using True by (simp add: x)
      ultimately show ?thesis unfolding c by blast
    qed
    then show ?thesis using s by blast
  qed
qed

lemma inv_diff: "inv s \<Longrightarrow> inv (absorb s (diff msg (brk s, chs s)))"
proof -
  assume i: "inv s"
  have o: "\<forall>p\<in>set (subscribers (brk s)). \<not> closed (chs s (fst p))"
    using invD(4) [OF i] by blast
  from diffLoop_effect [OF o, of msg] obtain cs' where
    d: "diffLoop msg (subscribers (brk s)) (chs s) = Done cs'" and
    e: "\<And>c. closed (cs' c) = closed (chs s c)
          \<and> (\<exists>n. received (cs' c) = received (chs s c) @ replicate n (Live msg)
                 \<and> ((c, True) \<notin> set (subscribers (brk s)) \<longrightarrow> n = 0))"
    by auto
  have a: "absorb s (diff msg (brk s, chs s)) = s\<lparr>chs := cs'\<rparr>"
    using d by (simp add: absorb_def diff_def)
  have "inv (s\<lparr>chs := cs'\<rparr>)"
  proof (rule invI)
    show "shape (tasks (s\<lparr>chs := cs'\<rparr>) c) (received (chs (s\<lparr>chs := cs'\<rparr>) c))" for c
    proof -
      from e [of c] obtain n where
        n: "received (cs' c) = received (chs s c) @ replicate n (Live msg)"
        and z: "(c, True) \<notin> set (subscribers (brk s)) \<longrightarrow> n = 0" by auto
      show ?thesis
      proof (cases "(c, True) \<in> set (subscribers (brk s))")
        case True
        from invD(4) [OF i True] have t: "tasks s c = Some Finished" by simp
        from invD(7) [OF i, of c] t have "backlogFirst (received (chs s c))" by simp
        then show ?thesis using t n by (simp add: backlogFirst_live)
      next
        case False
        then show ?thesis using invD(7) [OF i, of c] n z by simp
      qed
    qed
    show "snd p \<and> tasks (s\<lparr>chs := cs'\<rparr>) (fst p) = Some Finished
        \<and> \<not> closed (chs (s\<lparr>chs := cs'\<rparr>) (fst p))"
      if "p \<in> set (subscribers (brk (s\<lparr>chs := cs'\<rparr>)))" for p
      using that invD(4) [OF i, of p] e [of "fst p"] by simp
    show "tasks (s\<lparr>chs := cs'\<rparr>) c = Some Finished" if "closed (chs (s\<lparr>chs := cs'\<rparr>) c)" for c
      using that invD(6) [OF i, of c] e [of c] by simp
    show "c < nextChan (s\<lparr>chs := cs'\<rparr>)" if "tasks (s\<lparr>chs := cs'\<rparr>) c \<noteq> None" for c
      using that invD(5) [OF i, of c] by simp
  qed (use invD(1,2,3) [OF i] in simp_all)
  then show ?thesis by (simp add: a)
qed

lemma inv_full: "inv s \<Longrightarrow> inv (absorb s (fullOn msg now (brk s, chs s)))"
proof -
  assume i: "inv s"
  obtain rb where rb: "state (brk s) = Some rb" using invD(1) [OF i] by auto
  have a: "absorb s (fullOn msg now (brk s, chs s))
         = s\<lparr>brk := (brk s)\<lparr>state := Some (put rb msg), updated := now\<rparr>\<rparr>"
    using rb by (simp add: absorb_def fullOn_def full_def)
  show ?thesis unfolding a by (rule inv_frame [OF i]) (use invD(2) [OF i] in simp_all)
qed

lemma Unsubscribe_effect:
  "Unsubscribe ch (b, cs) =
     (if map_of (subscribers b) ch = None then Done (b, cs)
      else if closed (cs ch) then Panic CloseOfClosedChannel
      else Done (b\<lparr>subscribers := AList.delete ch (subscribers b)\<rparr>,
                 cs(ch := (cs ch)\<lparr>closed := True\<rparr>)))"
  by (simp add: Unsubscribe_def close_chan_def)

lemma inv_unsub: "inv s \<Longrightarrow> inv (absorb s (Unsubscribe ch (brk s, chs s)))"
proof -
  assume i: "inv s"
  show ?thesis
  proof (cases "map_of (subscribers (brk s)) ch")
    case None
    then show ?thesis using i by (simp add: Unsubscribe_effect absorb_def)
  next
    case (Some fl)
    then have m: "(ch, fl) \<in> set (subscribers (brk s))" by (rule map_of_SomeD)
    from invD(4) [OF i m] have t: "tasks s ch = Some Finished" and o: "\<not> closed (chs s ch)"
      by simp_all
    define s' where "s' = s\<lparr>brk := (brk s)\<lparr>subscribers := AList.delete ch (subscribers (brk s))\<rparr>,
                 chs := (chs s)(ch := (chs s ch)\<lparr>closed := True\<rparr>)\<rparr>"
    have a: "absorb s (Unsubscribe ch (brk s, chs s)) = s'"
      using Some o by (simp add: Unsubscribe_effect absorb_def s'_def)
    have "inv s'"
    proof (rule invI)
      show "distinct (map fst (subscribers (brk s')))"
        using invD(3) [OF i] by (simp add: s'_def distinct_delete)
      show "snd p \<and> tasks s' (fst p) = Some Finished \<and> \<not> closed (chs s' (fst p))"
        if "p \<in> set (subscribers (brk s'))" for p
      proof -
        from that have "p \<in> set (subscribers (brk s)) \<and> fst p \<noteq> ch"
          using set_delete_sub [of p ch "subscribers (brk s)"] by (simp add: s'_def)
        then show ?thesis using invD(4) [OF i, of p] by (simp add: s'_def)
      qed
      show "tasks s' c = Some Finished" if "closed (chs s' c)" for c
        using that invD(6) [OF i, of c] t by (auto simp: s'_def split: if_splits)
      show "c < nextChan s'" if "tasks s' c \<noteq> None" for c
        using that invD(5) [OF i, of c] by (simp add: s'_def)
      show "shape (tasks s' c) (received (chs s' c))" for c
        using invD(7) [OF i, of c] by (auto simp: s'_def)
    qed (use invD(1,2) [OF i] in \<open>simp_all add: s'_def\<close>)
    then show ?thesis by (simp add: a)
  qed
qed

lemma inv_remove: "inv s \<Longrightarrow> inv (removeStep s)"
proof -
  assume i: "inv s"
  show ?thesis
  proof (cases "removing s")
    case Idle
    show ?thesis unfolding removeStep_def Idle by (simp, rule inv_frame [OF i]) (use invD(1,2) [OF i] in simp_all)
  next
    case (Pending snap)
    show ?thesis
    proof (cases "removeLock (brk s) = 0")
      case True
      show ?thesis unfolding removeStep_def Pending using True
        by (simp, intro inv_frame [OF i]) (use invD(1,2) [OF i] in simp_all)
    next
      case False
      then show ?thesis using i Pending by (simp add: removeStep_def)
    qed
  next
    case (Holding rest)
    show ?thesis
    proof (cases rest)
      case Nil
      show ?thesis unfolding removeStep_def Holding Nil
        by (simp, rule inv_frame [OF i]) (use invD(1,2) [OF i] in simp_all)
    next
      case (Cons ch rest')
      from inv_unsub [OF i, of ch] have u: "inv (absorb s (Unsubscribe ch (brk s, chs s)))" .
      show ?thesis
      proof (cases "Unsubscribe ch (brk s, chs s)")
        case (Done x)
        obtain b' cs' where x: "x = (b', cs')" by (cases x)
        from u Done x have u': "inv (s\<lparr>brk := b', chs := cs'\<rparr>)" by (simp add: absorb_def)
        have "inv (s\<lparr>brk := b', chs := cs', removing := Holding rest'\<rparr>)"
          by (rule inv_frame [OF u']) (use invD(1,2) [OF u'] in simp_all)
        then show ?thesis using Holding Cons Done x by (simp add: removeStep_def)
      next
        case (Panic p)
        then show ?thesis using u invD(2) by (fastforce simp: absorb_def)
      next
        case (Blocked x)
        then show ?thesis using i Holding Cons by (simp add: removeStep_def)
      qed
    qed
  qed
qed

lemma inv_exec: "inv s \<Longrightarrow> inv (exec a s)"
  using inv_Subscribe [of s] inv_step [of s] inv_full [of s] inv_diff [of s] inv_unsub [of s]
    inv_remove [of s]
  by (cases a) simp_all

lemma inv_run: "inv s \<Longrightarrow> inv (run acts s)"
  by (induction acts arbitrary: s) (simp_all add: inv_exec del: exec.simps)

section \<open>Effects of diff and Unsubscribe on channels\<close>

lemma diffLoop_exact:
  "distinct (map fst subs) \<Longrightarrow> \<forall>p\<in>set subs. \<not> closed (cs (fst p)) \<Longrightarrow>
   diffLoop msg subs cs =
     Done (\<lambda>c. if (c, True) \<in> set subs
               then (cs c)\<lparr>received := received (cs c) @ [Live msg]\<rparr> else cs c)"
proof (induction subs arbitrary: cs)
  case Nil
  then show ?case by simp
next
  case (Cons x subs)
  obtain c0 f0 where x: "x = (c0, f0)" by (cases x)
  have fresh: "(c0, fl) \<notin> set subs" for fl
    using Cons.prems(1) by (auto simp: x image_iff)
  show ?case
  proof (cases f0)
    case False
    have "diffLoop msg subs cs =
       Done (\<lambda>c. if (c, True) \<in> set subs
               then (cs c)\<lparr>received := received (cs c) @ [Live msg]\<rparr> else cs c)"
      using Cons.IH [of cs] Cons.prems by simp
    then show ?thesis using False by (simp add: x)
  next
    case True
    define cs1 where "cs1 = cs(c0 := (cs c0)\<lparr>received := received (cs c0) @ [Live msg]\<rparr>)"
    have o: "\<forall>p\<in>set subs. \<not> closed (cs1 (fst p))"
      using Cons.prems by (auto simp: cs1_def x)
    have d: "distinct (map fst subs)" using Cons.prems by simp
    have eq: "(\<lambda>c. if (c, True) \<in> set subs
               then (cs1 c)\<lparr>received := received (cs1 c) @ [Live msg]\<rparr> else cs1 c)
        = (\<lambda>c. if (c, True) \<in> set (x # subs)
               then (cs c)\<lparr>received := received (cs c) @ [Live msg]\<rparr> else cs c)"
      using fresh [of True] True by (auto simp: cs1_def x fun_eq_iff)
    have step: "diffLoop msg (x # subs) cs = diffLoop msg subs cs1"
      using True Cons.prems by (simp add: x send_def cs1_def)
    show ?thesis by (simp only: step Cons.IH [OF d o] eq)
  qed
qed

lemma subscribeStep_other: "c \<noteq> ch \<Longrightarrow> chs (subscribeStep ch s) c = chs s c"
  by (auto simp: subscribeStep_def send_def split: option.splits phase.splits list.splits remover.splits)

lemma closed_frame:
  assumes i: "inv s" and c: "closed (chs s c)"
  shows "chs (exec a s) c = chs s c"
proof -
  have t: "tasks s c = Some Finished" using invD(6) [OF i c] .
  have ns: "p \<in> set (subscribers (brk s)) \<Longrightarrow> fst p \<noteq> c" for p
    using invD(4) [OF i, of p] c by auto
  have nm: "map_of (subscribers (brk s)) c = None"
  proof (cases "map_of (subscribers (brk s)) c")
    case (Some fl)
    from map_of_SomeD [OF this] ns show ?thesis by fastforce
  qed simp
  have un: "chs (absorb s (Unsubscribe ch (brk s, chs s))) c = chs s c" for ch
    using nm c by (cases "ch = c") (auto simp: Unsubscribe_effect absorb_def)
  show ?thesis
  proof (cases a)
    case ASubscribe
    then show ?thesis by (simp add: Subscribe_def Let_def)
  next
    case (AStep ch)
    show ?thesis
    proof (cases "ch = c")
      case True
      then show ?thesis using t AStep by (simp add: subscribeStep_def)
    next
      case False
      then show ?thesis using AStep subscribeStep_other [of c ch s] by simp
    qed
  next
    case (AFull msg now)
    then show ?thesis
      by (auto simp: absorb_def fullOn_def full_def split: option.splits)
  next
    case (ADiff msg)
    have o: "\<forall>p\<in>set (subscribers (brk s)). \<not> closed (chs s (fst p))"
      using invD(4) [OF i] by blast
    have "(c, True) \<notin> set (subscribers (brk s))" using ns by fastforce
    then show ?thesis using ADiff diffLoop_exact [OF invD(3) [OF i] o, of msg]
      by (simp add: absorb_def diff_def)
  next
    case (AUnsubscribe ch)
    then show ?thesis using un [of ch] by simp
  next
    case ARemove
    show ?thesis
    proof (cases "removing s")
      case (Holding rest)
      show ?thesis
      proof (cases rest)
        case (Cons ch rest')
        have "chs (removeStep s) c = chs (absorb s (Unsubscribe ch (brk s, chs s))) c"
          using Holding Cons
          by (auto simp: removeStep_def absorb_def split: result.splits)
        then show ?thesis using ARemove un [of ch] by simp
      qed (use ARemove Holding in \<open>simp add: removeStep_def\<close>)
    qed (use ARemove in \<open>simp_all add: removeStep_def\<close>)
  qed
qed

lemma closed_forever:
  "inv s \<Longrightarrow> closed (chs s c) \<Longrightarrow> chs (run acts s) c = chs s c"
proof (induction acts arbitrary: s)
  case Nil
  then show ?case by simp
next
  case (Cons a acts)
  have e: "chs (exec a s) c = chs s c" using closed_frame [OF Cons.prems] .
  have "chs (run acts (exec a s)) c = chs (exec a s) c"
    using Cons.IH [OF inv_exec [OF Cons.prems(1)]] e Cons.prems(2) by simp
  then show ?case using e by (simp del: exec.simps)
qed



lemma NewFullDiffBroker_is_buffered_1: "NewFullDiffBroker tp now = NewBufferedBroker tp 1 now"
  by (simp add: NewFullDiffBroker_def NewBufferedBroker_def)

lemma unsubscribe_twice: "exec (AUnsubscribe ch) (exec (AUnsubscribe ch) s) = exec (AUnsubscribe ch) s"
proof (cases "crashed s = None")
  case False
  then show ?thesis by simp
next
  case c: True
  show ?thesis
  proof (cases "map_of (subscribers (brk s)) ch = None")
    case True
    then show ?thesis using c by (simp add: Unsubscribe_effect absorb_def)
  next
    case False
    show ?thesis
    proof (cases "closed (chs s ch)")
      case True
      then show ?thesis using c False by (simp add: Unsubscribe_effect absorb_def)
    next
      case o: False
      then show ?thesis using c False
        by (simp add: Unsubscribe_effect absorb_def delete_conv')
    qed
  qed
qed

lemma Unsubscribe_twice:
  "Unsubscribe ch (b, cs) = Done s' \<Longrightarrow> Unsubscribe ch s' = Done s'"
  by (cases s') (auto simp: Unsubscribe_effect delete_conv' split: if_splits)

lemma handshaking_not_subscribed:
  assumes i: "inv s" and h: "handshaking s ch"
  shows "map_of (subscribers (brk s)) ch = None" "\<not> closed (chs s ch)"
proof -
  have nf: "tasks s ch \<noteq> Some Finished"
    using h by (auto simp: handshaking_def split: option.splits phase.splits)
  show "map_of (subscribers (brk s)) ch = None"
  proof (cases "map_of (subscribers (brk s)) ch")
    case (Some fl)
    from invD(4) [OF i map_of_SomeD [OF this]] nf show ?thesis by simp
  qed simp
  show "\<not> closed (chs s ch)" using invD(6) [OF i, of ch] nf by auto
qed

lemma subscribed_finished:
  assumes i: "inv s" and m: "map_of (subscribers (brk s)) ch = Some fl"
  shows "fl" "tasks s ch = Some Finished" "\<not> closed (chs s ch)" "(ch, True) \<in> set (subscribers (brk s))"
  using invD(4) [OF i map_of_SomeD [OF m]] map_of_SomeD [OF m] by auto

lemma diff_received:
  assumes i: "inv s"
  shows "received (chs (exec (ADiff msg) s) c) =
     (if map_of (subscribers (brk s)) c = Some True then received (chs s c) @ [Live msg]
      else received (chs s c))"
proof -
  have o: "\<forall>p\<in>set (subscribers (brk s)). \<not> closed (chs s (fst p))"
    using invD(4) [OF i] by blast
  show ?thesis
    using diffLoop_exact [OF invD(3) [OF i] o, of msg] invD(2) [OF i] invD(3) [OF i]
    by (simp add: absorb_def diff_def)
qed

lemma shape_backlogFirst: "shape t ds \<Longrightarrow> backlogFirst ds"
proof (cases t)
  case None
  assume "shape t ds"
  then show ?thesis using None by (simp add: backlogFirst_def)
next
  case (Some ph)
  assume sh: "shape t ds"
  show ?thesis
  proof (cases ph)
    case (Emitting ms)
    then show ?thesis using sh Some by (simp add: backlogFirst_all)
  next
    case Finished
    then show ?thesis using sh Some by simp
  qed (use sh Some in \<open>simp_all add: backlogFirst_def\<close>)
qed

text \<open>The definitions unfolded to run a schedule on a concrete broker.\<close>

lemmas sys_eval =
  initSys_def NewBufferedBroker_def NewFullDiffBroker_def newBroker_def newRingBuffer_def
  Subscribe_def subscribeStep_def removeStep_def absorb_def fullOn_def full_def diff_def
  Unsubscribe_effect send_def put_def emit_def waitTouch_def setSubscriber_def
  activeSubscribers_def handshaking_def Let_def

text \<open>The definitions unfolded to run the registry on a concrete state.\<close>

lemmas world_eval =
  initWorld_def FindBroker_def GetFullDiffBroker_def GetBufferedBroker_def
  createFullDiffBroker_def createBufferedBroker_def onBroker_def Full_def Diff_def Stream_def
  NewMessage_def expired_def CleanUpBrokers_def removeSubscribers_def

section \<open>Running publishes and a handshake\<close>







section \<open>Backlog before diffs\<close>

text \<open>
  C1. On every schedule of a broker made by \<^verbatim>\<open>NewBufferedBroker\<close> (or
  \<^verbatim>\<open>NewFullDiffBroker\<close>, which is the same with size 1): no call panics; a channel is
  flagged \<open>True\<close> in \<open>subscribers\<close> only once its goroutine has finished, that is after
  \<open>emit\<close> has returned; a channel whose goroutine has not finished is not in
  \<open>subscribers\<close>, and \<open>diff\<close> sends nothing to it; \<open>diff\<close> sends its message to every
  flagged channel; and on every channel all backlog messages come before all diffs.
\<close>

theorem backlog_before_diffs:
  "s = run acts (initSys (NewBufferedBroker tp sz now)) \<Longrightarrow>
   crashed s = None
   \<and> (\<forall>c. map_of (subscribers (brk s)) c = Some True \<longrightarrow> tasks s c = Some Finished)
   \<and> (\<forall>c. handshaking s c \<longrightarrow> map_of (subscribers (brk s)) c = None)
   \<and> (\<forall>c msg. handshaking s c \<longrightarrow>
         received (chs (exec (ADiff msg) s) c) = received (chs s c))
   \<and> (\<forall>c msg. map_of (subscribers (brk s)) c = Some True \<longrightarrow>
         received (chs (exec (ADiff msg) s) c) = received (chs s c) @ [Live msg])
   \<and> (\<forall>c. backlogFirst (received (chs s c)))"
proof -
  assume s: "s = run acts (initSys (NewBufferedBroker tp sz now))"
  have i: "inv s" unfolding s by (rule inv_run [OF inv_init])
  have bf: "backlogFirst (received (chs s c))" for c
    using shape_backlogFirst [OF invD(7) [OF i, of c]] .
  show ?thesis
    using invD(2) [OF i] subscribed_finished(2) [OF i] handshaking_not_subscribed(1) [OF i]
      diff_received [OF i] bf
    by (simp del: exec.simps)
qed

theorem backlog_before_diffs_witness:
  "handshaking
     (run [ASubscribe, AStep 0, AFull \<lparr>Event = ''e'', Data = [1]\<rparr> 5, AStep 0]
        (initSys (NewBufferedBroker ''t'' 1 0))) 0
   \<and> received (chs (exec (ADiff \<lparr>Event = ''e'', Data = [2]\<rparr>)
        (run [ASubscribe, AStep 0, AFull \<lparr>Event = ''e'', Data = [1]\<rparr> 5, AStep 0]
           (initSys (NewBufferedBroker ''t'' 1 0)))) 0) = []
   \<and> map_of (subscribers (brk
        (run [AFull \<lparr>Event = ''e'', Data = [1]\<rparr> 5, ASubscribe, AStep 0, AStep 0, AStep 0, AStep 0]
           (initSys (NewBufferedBroker ''t'' 1 0))))) 0 = Some True
   \<and> received (chs (exec (ADiff \<lparr>Event = ''e'', Data = [2]\<rparr>)
        (run [AFull \<lparr>Event = ''e'', Data = [1]\<rparr> 5, ASubscribe, AStep 0, AStep 0, AStep 0, AStep 0]
           (initSys (NewBufferedBroker ''t'' 1 0)))) 0)
       = [Backlog \<lparr>Event = ''e'', Data = [1]\<rparr>, Live \<lparr>Event = ''e'', Data = [2]\<rparr>]"
  using backlog_before_diffs [OF refl,
      of "[ASubscribe, AStep 0, AFull \<lparr>Event = ''e'', Data = [1]\<rparr> 5, AStep 0]" "''t''" 1 0]
    backlog_before_diffs [OF refl,
      of "[AFull \<lparr>Event = ''e'', Data = [1]\<rparr> 5, ASubscribe, AStep 0, AStep 0, AStep 0, AStep 0]"
         "''t''" 1 0]
  by (simp add: sys_eval)

section \<open>Unsubscribe is idempotent and terminal\<close>

text \<open>
  C7. In every state, unsubscribing a channel twice leaves exactly the state that
  unsubscribing it once leaves: the second call finds the channel gone from
  \<open>subscribers\<close>, closes nothing and cannot panic. And on every schedule, once
  \<open>Unsubscribe\<close> has removed a channel, the channel is closed and whatever is called
  afterwards (any number of diffs, fulls, subscriptions, further unsubscribes) sends
  nothing to it, never puts it back into \<open>subscribers\<close> and never panics.
\<close>

theorem unsubscribe_idempotent_terminal:
  "exec (AUnsubscribe ch) (exec (AUnsubscribe ch) s0) = exec (AUnsubscribe ch) s0
   \<and> (\<forall>b cs s'. Unsubscribe ch (b, cs) = Done s' \<longrightarrow> Unsubscribe ch s' = Done s')
   \<and> (s = run acts (initSys (NewBufferedBroker tp sz now)) \<longrightarrow>
        map_of (subscribers (brk s)) ch \<noteq> None \<longrightarrow>
          closed (chs (exec (AUnsubscribe ch) s) ch)
          \<and> map_of (subscribers (brk (exec (AUnsubscribe ch) s))) ch = None
          \<and> (\<forall>more. chs (run more (exec (AUnsubscribe ch) s)) ch = chs (exec (AUnsubscribe ch) s) ch
                \<and> map_of (subscribers (brk (run more (exec (AUnsubscribe ch) s)))) ch = None
                \<and> crashed (run more (exec (AUnsubscribe ch) s)) = None))"
proof -
  have "closed (chs (exec (AUnsubscribe ch) s) ch)
          \<and> map_of (subscribers (brk (exec (AUnsubscribe ch) s))) ch = None
          \<and> (\<forall>more. chs (run more (exec (AUnsubscribe ch) s)) ch = chs (exec (AUnsubscribe ch) s) ch
                \<and> map_of (subscribers (brk (run more (exec (AUnsubscribe ch) s)))) ch = None
                \<and> crashed (run more (exec (AUnsubscribe ch) s)) = None)"
    if s: "s = run acts (initSys (NewBufferedBroker tp sz now))"
      and m: "map_of (subscribers (brk s)) ch \<noteq> None"
  proof -
    have i: "inv s" unfolding s by (rule inv_run [OF inv_init])
    from m obtain fl where fl: "map_of (subscribers (brk s)) ch = Some fl" by auto
    note sf = subscribed_finished [OF i fl]
    define s1 where "s1 = exec (AUnsubscribe ch) s"
    have i1: "inv s1" unfolding s1_def by (rule inv_exec [OF i])
    have c1: "closed (chs s1 ch)"
      using sf(3) fl invD(2) [OF i] by (simp add: s1_def Unsubscribe_effect absorb_def)
    have later: "chs (run more s1) ch = chs s1 ch
        \<and> map_of (subscribers (brk (run more s1))) ch = None
        \<and> crashed (run more s1) = None" for more
    proof -
      have im: "inv (run more s1)" by (rule inv_run [OF i1])
      have k: "chs (run more s1) ch = chs s1 ch" by (rule closed_forever [OF i1 c1])
      have "map_of (subscribers (brk (run more s1))) ch = None"
      proof (cases "map_of (subscribers (brk (run more s1))) ch")
        case (Some f2)
        from subscribed_finished(3) [OF im Some] k c1 show ?thesis by simp
      qed simp
      then show ?thesis using k invD(2) [OF im] by simp
    qed
    have "map_of (subscribers (brk s1)) ch = None" using later [of "[]"] by simp
    then show ?thesis using c1 later unfolding s1_def by blast
  qed
  then show ?thesis using unsubscribe_twice [of ch s0] Unsubscribe_twice [of ch] by blast
qed

theorem unsubscribe_idempotent_terminal_witness:
  "map_of (subscribers (brk
        (run [AFull \<lparr>Event = ''e'', Data = [1]\<rparr> 5, ASubscribe, AStep 0, AStep 0, AStep 0, AStep 0]
           (initSys (NewBufferedBroker ''t'' 1 0))))) 0 = Some True
   \<and> closed (chs (exec (AUnsubscribe 0)
        (run [AFull \<lparr>Event = ''e'', Data = [1]\<rparr> 5, ASubscribe, AStep 0, AStep 0, AStep 0, AStep 0]
           (initSys (NewBufferedBroker ''t'' 1 0)))) 0)
   \<and> received (chs (run [ADiff \<lparr>Event = ''e'', Data = [2]\<rparr>, AUnsubscribe 0]
        (exec (AUnsubscribe 0)
          (run [AFull \<lparr>Event = ''e'', Data = [1]\<rparr> 5, ASubscribe, AStep 0, AStep 0, AStep 0, AStep 0]
             (initSys (NewBufferedBroker ''t'' 1 0))))) 0)
       = [Backlog \<lparr>Event = ''e'', Data = [1]\<rparr>]
   \<and> crashed (run [ADiff \<lparr>Event = ''e'', Data = [2]\<rparr>, AUnsubscribe 0]
        (exec (AUnsubscribe 0)
          (run [AFull \<lparr>Event = ''e'', Data = [1]\<rparr> 5, ASubscribe, AStep 0, AStep 0, AStep 0, AStep 0]
             (initSys (NewBufferedBroker ''t'' 1 0))))) = None"
proof -
  let ?acts = "[AFull \<lparr>Event = ''e'', Data = [1]\<rparr> 5, ASubscribe, AStep 0, AStep 0, AStep 0, AStep 0]"
  let ?s = "run ?acts (initSys (NewBufferedBroker ''t'' 1 0))"
  have m: "map_of (subscribers (brk ?s)) 0 = Some True" by (simp add: sys_eval)
  have ne: "map_of (subscribers (brk ?s)) 0 \<noteq> None" by (simp add: sys_eval)
  note t = unsubscribe_idempotent_terminal [of 0 ?s ?s ?acts "''t''" 1 0,
      THEN conjunct2, THEN conjunct2, rule_format, OF refl ne]
  have r: "received (chs (exec (AUnsubscribe 0) ?s) 0) = [Backlog \<lparr>Event = ''e'', Data = [1]\<rparr>]"
    by (simp add: sys_eval)
  from t have c: "closed (chs (exec (AUnsubscribe 0) ?s) 0)" by (rule conjunct1)
  from t have l: "chs (run [ADiff \<lparr>Event = ''e'', Data = [2]\<rparr>, AUnsubscribe 0]
        (exec (AUnsubscribe 0) ?s)) 0 = chs (exec (AUnsubscribe 0) ?s) 0
     \<and> crashed (run [ADiff \<lparr>Event = ''e'', Data = [2]\<rparr>, AUnsubscribe 0]
        (exec (AUnsubscribe 0) ?s)) = None"
    by blast
  show ?thesis using m c l r by (simp only:)
qed

section \<open>Closing a channel, phase by phase\<close>




section \<open>Frame of full and diff\<close>



section \<open>Get-or-create\<close>

text \<open>
  C6, as stated, fails: the creation path does not look at the map. Two callers that
  both miss in \<^verbatim>\<open>FindBroker\<close> both reach \<^verbatim>\<open>createFullDiffBroker\<close>; the second call runs
  on a registry that already holds the topic, constructs a second broker and replaces
  the entry, while the first broker stays allocated.
\<close>

theorem create_overwrites_counterexample:
  "FindBroker ''t'' initWorld = None
   \<and> fst (createFullDiffBroker ''t'' 1 initWorld) = 0
   \<and> FindBroker ''t'' (snd (createFullDiffBroker ''t'' 1 initWorld)) = Some 0
   \<and> fst (createFullDiffBroker ''t'' 2 (snd (createFullDiffBroker ''t'' 1 initWorld))) = 1
   \<and> FindBroker ''t'' (snd (createFullDiffBroker ''t'' 2 (snd (createFullDiffBroker ''t'' 1 initWorld))))
       = Some 1
   \<and> heap (snd (createFullDiffBroker ''t'' 2 (snd (createFullDiffBroker ''t'' 1 initWorld)))) 0
       = Some (NewFullDiffBroker ''t'' 1)
   \<and> heap (snd (createFullDiffBroker ''t'' 2 (snd (createFullDiffBroker ''t'' 1 initWorld)))) 1
       = Some (NewFullDiffBroker ''t'' 2)"
  by (simp add: world_eval Let_def)

text \<open>
  C6, amended. Get-or-create looks the topic up first: when the registry holds a
  broker for the topic, that broker is returned and the registry and the store are
  unchanged; on a miss the creation path is called. The creation path itself never
  checks the map: it always allocates a new broker and stores it under the topic.
\<close>

theorem registry_lookup_first:
  "(FindBroker tp w = Some a \<longrightarrow>
      GetFullDiffBroker tp now w = (a, w) \<and> GetBufferedBroker tp now w = (a, w))
   \<and> (FindBroker tp w = None \<longrightarrow>
      GetFullDiffBroker tp now w = createFullDiffBroker tp now w
      \<and> GetBufferedBroker tp now w = createBufferedBroker tp (defaultSize w) now w)
   \<and> fst (createFullDiffBroker tp now w) = nextAddr w
   \<and> FindBroker tp (snd (createFullDiffBroker tp now w)) = Some (nextAddr w)
   \<and> heap (snd (createFullDiffBroker tp now w)) (nextAddr w) = Some (NewFullDiffBroker tp now)
   \<and> fst (createBufferedBroker tp sz now w) = nextAddr w
   \<and> FindBroker tp (snd (createBufferedBroker tp sz now w)) = Some (nextAddr w)
   \<and> heap (snd (createBufferedBroker tp sz now w)) (nextAddr w) = Some (NewBufferedBroker tp sz now)"
  by (simp add: GetFullDiffBroker_def GetBufferedBroker_def)
     (simp add: createFullDiffBroker_def createBufferedBroker_def Let_def)

theorem registry_lookup_first_witness:
  "FindBroker ''t'' initWorld = None
   \<and> GetFullDiffBroker ''t'' 1 initWorld = createFullDiffBroker ''t'' 1 initWorld
   \<and> FindBroker ''t'' (snd (createFullDiffBroker ''t'' 1 initWorld)) = Some 0
   \<and> GetFullDiffBroker ''t'' 2 (snd (createFullDiffBroker ''t'' 1 initWorld))
       = (0, snd (createFullDiffBroker ''t'' 1 initWorld))
   \<and> GetBufferedBroker ''t'' 2 (snd (createFullDiffBroker ''t'' 1 initWorld))
       = (0, snd (createFullDiffBroker ''t'' 1 initWorld))"
proof -
  let ?w1 = "snd (createFullDiffBroker ''t'' 1 initWorld)"
  have n: "FindBroker ''t'' initWorld = None" by (simp add: world_eval)
  have s: "FindBroker ''t'' ?w1 = Some 0" by (simp add: world_eval Let_def)
  note a = registry_lookup_first [of "''t''" initWorld 0 1 0, THEN conjunct2, THEN conjunct1,
      rule_format, OF n, THEN conjunct1]
  note b = registry_lookup_first [of "''t''" ?w1 0 2 0, THEN conjunct1, rule_format, OF s]
  show ?thesis by (intro conjI n a s b [THEN conjunct1] b [THEN conjunct2])
qed

text \<open>
  C10. The lookup does not look at the kind of a broker. For a topic in the registry
  both \<^verbatim>\<open>GetFullDiffBroker\<close> and \<^verbatim>\<open>GetBufferedBroker\<close> return the broker stored there
  and leave it as it is. So \<^verbatim>\<open>GetBufferedBroker\<close> on a topic created by
  \<^verbatim>\<open>GetFullDiffBroker\<close> returns that broker, whose state store has capacity 1, and
  \<^verbatim>\<open>GetFullDiffBroker\<close> on a topic created by \<^verbatim>\<open>GetBufferedBroker\<close> returns that broker,
  whose state store has capacity \<^verbatim>\<open>defaultSize\<close> (100 after \<^verbatim>\<open>init\<close>).
\<close>

theorem lookup_blind_to_kind:
  "(FindBroker tp w = Some a \<longrightarrow>
      fst (GetFullDiffBroker tp now w) = a \<and> fst (GetBufferedBroker tp now w) = a
      \<and> heap (snd (GetFullDiffBroker tp now w)) a = heap w a
      \<and> heap (snd (GetBufferedBroker tp now w)) a = heap w a)
   \<and> (FindBroker tp w = None \<longrightarrow>
      GetBufferedBroker tp now' (snd (GetFullDiffBroker tp now w)) = GetFullDiffBroker tp now w
      \<and> heap (snd (GetFullDiffBroker tp now w)) (fst (GetFullDiffBroker tp now w))
          = Some (NewFullDiffBroker tp now)
      \<and> map_option capacity (state (NewFullDiffBroker tp now)) = Some 1
      \<and> GetFullDiffBroker tp now' (snd (GetBufferedBroker tp now w)) = GetBufferedBroker tp now w
      \<and> heap (snd (GetBufferedBroker tp now w)) (fst (GetBufferedBroker tp now w))
          = Some (NewBufferedBroker tp (defaultSize w) now)
      \<and> map_option capacity (state (NewBufferedBroker tp (defaultSize w) now))
          = Some (defaultSize w))"
proof -
  have hit: "fst (GetFullDiffBroker tp now w) = a \<and> fst (GetBufferedBroker tp now w) = a
      \<and> heap (snd (GetFullDiffBroker tp now w)) a = heap w a
      \<and> heap (snd (GetBufferedBroker tp now w)) a = heap w a" if "FindBroker tp w = Some a"
    using that by (simp add: GetFullDiffBroker_def GetBufferedBroker_def)
  have miss: "GetBufferedBroker tp now' (snd (GetFullDiffBroker tp now w)) = GetFullDiffBroker tp now w
      \<and> heap (snd (GetFullDiffBroker tp now w)) (fst (GetFullDiffBroker tp now w))
          = Some (NewFullDiffBroker tp now)
      \<and> map_option capacity (state (NewFullDiffBroker tp now)) = Some 1
      \<and> GetFullDiffBroker tp now' (snd (GetBufferedBroker tp now w)) = GetBufferedBroker tp now w
      \<and> heap (snd (GetBufferedBroker tp now w)) (fst (GetBufferedBroker tp now w))
          = Some (NewBufferedBroker tp (defaultSize w) now)
      \<and> map_option capacity (state (NewBufferedBroker tp (defaultSize w) now))
          = Some (defaultSize w)" if n: "FindBroker tp w = None"
  proof -
    have f: "GetFullDiffBroker tp now w = createFullDiffBroker tp now w"
      using n by (simp add: GetFullDiffBroker_def)
    have b: "GetBufferedBroker tp now w = createBufferedBroker tp (defaultSize w) now w"
      using n by (simp add: GetBufferedBroker_def)
    have f1: "createFullDiffBroker tp now w = (nextAddr w, snd (createFullDiffBroker tp now w))"
      by (simp add: createFullDiffBroker_def Let_def)
    have b1: "createBufferedBroker tp sz now w = (nextAddr w, snd (createBufferedBroker tp sz now w))"
      for sz by (simp add: createBufferedBroker_def Let_def)
    have "GetBufferedBroker tp now' (snd (createFullDiffBroker tp now w))
        = createFullDiffBroker tp now w"
      using f1 by (simp add: GetBufferedBroker_def)
    moreover have "GetFullDiffBroker tp now' (snd (createBufferedBroker tp (defaultSize w) now w))
        = createBufferedBroker tp (defaultSize w) now w"
      using b1 [of "defaultSize w"] by (simp add: GetFullDiffBroker_def)
    moreover have "heap (snd (createFullDiffBroker tp now w)) (fst (createFullDiffBroker tp now w))
          = Some (NewFullDiffBroker tp now)"
      by (simp add: createFullDiffBroker_def Let_def)
    moreover have "heap (snd (createBufferedBroker tp (defaultSize w) now w))
          (fst (createBufferedBroker tp (defaultSize w) now w))
          = Some (NewBufferedBroker tp (defaultSize w) now)"
      by (simp add: createBufferedBroker_def Let_def)
    moreover have "map_option capacity (state (NewFullDiffBroker tp now)) = Some 1"
      by (simp add: NewFullDiffBroker_def newBroker_def newRingBuffer_def)
    moreover have "map_option capacity (state (NewBufferedBroker tp (defaultSize w) now))
          = Some (defaultSize w)"
      by (simp add: NewBufferedBroker_def newBroker_def newRingBuffer_def)
    ultimately show ?thesis by (simp only: f b simp_thms)
  qed
  show ?thesis using hit miss by blast
qed

theorem lookup_blind_to_kind_witness:
  "FindBroker ''t'' initWorld = None
   \<and> fst (GetBufferedBroker ''t'' 2 (snd (GetFullDiffBroker ''t'' 1 initWorld))) = 0
   \<and> map_option (map_option capacity \<circ> state)
        (heap (snd (GetBufferedBroker ''t'' 2 (snd (GetFullDiffBroker ''t'' 1 initWorld)))) 0)
       = Some (Some 1)
   \<and> fst (GetFullDiffBroker ''t'' 2 (snd (GetBufferedBroker ''t'' 1 initWorld))) = 0
   \<and> map_option (map_option capacity \<circ> state)
        (heap (snd (GetFullDiffBroker ''t'' 2 (snd (GetBufferedBroker ''t'' 1 initWorld)))) 0)
       = Some (Some 100)"
proof -
  have n: "FindBroker ''t'' initWorld = None" by (simp add: world_eval)
  note m = lookup_blind_to_kind [of "''t''" initWorld 0 1 2, THEN conjunct2, rule_format, OF n]
  have e1: "GetBufferedBroker ''t'' 2 (snd (GetFullDiffBroker ''t'' 1 initWorld))
      = GetFullDiffBroker ''t'' 1 initWorld" using m by (rule conjunct1)
  have e2: "GetFullDiffBroker ''t'' 2 (snd (GetBufferedBroker ''t'' 1 initWorld))
      = GetBufferedBroker ''t'' 1 initWorld" using m by blast
  show ?thesis unfolding e1 e2 using n
    by (simp add: world_eval Let_def NewFullDiffBroker_def NewBufferedBroker_def newBroker_def
        newRingBuffer_def)
qed

section \<open>The backlog of a buffered broker\<close>



end
